theory Spec2Isabelle
  imports Main "HOL-Library.Word"
begin

section \<open>The pipe operators of \<^verbatim>\<open>pipe_operator.h\<close>\<close>

text \<open>
  The header overloads \<^verbatim>\<open>operator|\<close> three times. The steps that are piped are
  ordinary C++ functions: they print to \<^verbatim>\<open>std::cout\<close> and one of them draws random
  numbers. A step is therefore modelled as a function that takes the state of the
  outside world and returns its result together with the new state. The operators are
  generic in the step, so they are generic in the type \<open>'w\<close> of that state.
\<close>

subsection \<open>\<^verbatim>\<open>std::expected\<close>\<close>

text \<open>
  \<^verbatim>\<open>std::expected<T, E>\<close> holds either a value or an error: \<open>Inr v\<close> is the value
  \<open>v\<close>, \<open>Inl e\<close> the error \<open>e\<close>. \<open>has_value\<close> is the conversion to \<^verbatim>\<open>bool\<close>.
  \<open>deref\<close> is \<^verbatim>\<open>operator*\<close>; on an object that holds an error the C++ behaviour is
  undefined, which is the result \<open>None\<close> here. \<open>from_value\<close> is the converting
  constructor from a value and \<open>unexpected\<close> the one from \<^verbatim>\<open>std::unexpected\<close>.
\<close>

type_synonym ('t, 'e) expected = "'e + 't"

definition has_value :: "('t, 'e) expected \<Rightarrow> bool" where
  "has_value ex = (case ex of Inr v \<Rightarrow> True | Inl e \<Rightarrow> False)"

definition deref :: "('t, 'e) expected \<Rightarrow> 't option" where
  "deref ex = (case ex of Inr v \<Rightarrow> Some v | Inl e \<Rightarrow> None)"

definition from_value :: "'t \<Rightarrow> ('t, 'e) expected" where
  "from_value v = Inr v"

definition unexpected :: "'e \<Rightarrow> ('t, 'e) expected" where
  "unexpected e = Inl e"

subsection \<open>\<^verbatim>\<open>v2::operator|\<close>\<close>

text \<open>
  \<^verbatim>\<open>return std::invoke(std::forward<Function>(f), std::forward<T>(t));\<close>
  The operator calls the function on the left operand and returns what it returns.
\<close>

definition v2_pipe :: "'a \<Rightarrow> ('a \<Rightarrow> 'w \<Rightarrow> 'b \<times> 'w) \<Rightarrow> 'w \<Rightarrow> 'b \<times> 'w" where
  "v2_pipe t f w = f t w"

text \<open>
  The expression \<^verbatim>\<open>t | f1 | ... | fn\<close>. The operator associates to the left, so
  the expression is \<^verbatim>\<open>(t | f1) | ... | fn\<close>: \<^verbatim>\<open>t | f1\<close> is evaluated first and is the
  left operand of the rest.
\<close>

fun v2_chain :: "'a \<Rightarrow> ('a \<Rightarrow> 'w \<Rightarrow> 'a \<times> 'w) list \<Rightarrow> 'w \<Rightarrow> 'a \<times> 'w" where
  "v2_chain t [] w = (t, w)"
| "v2_chain t (f # fs) w = (case v2_pipe t f w of (t', w') \<Rightarrow> v2_chain t' fs w')"

subsection \<open>\<^verbatim>\<open>v3::operator|\<close>\<close>

text \<open>
  \<^verbatim>\<open>return ex ? std::invoke(f, *ex) : ex;\<close>
  The result is \<open>None\<close> when the operator runs into undefined behaviour, that is when
  it dereferences an \<open>ex\<close> that holds an error.
\<close>

definition v3_pipe ::
  "('t, 'e) expected \<Rightarrow> ('t \<Rightarrow> 'w \<Rightarrow> ('t, 'e) expected \<times> 'w) \<Rightarrow> 'w
     \<Rightarrow> (('t, 'e) expected \<times> 'w) option" where
  "v3_pipe ex f w =
     (if has_value ex
      then (case deref ex of Some v \<Rightarrow> Some (f v w) | None \<Rightarrow> None)
      else Some (ex, w))"

text \<open>The expression \<^verbatim>\<open>ex | f1 | ... | fn\<close>, that is \<^verbatim>\<open>(ex | f1) | ... | fn\<close>.\<close>

fun v3_chain ::
  "('t, 'e) expected \<Rightarrow> ('t \<Rightarrow> 'w \<Rightarrow> ('t, 'e) expected \<times> 'w) list \<Rightarrow> 'w
     \<Rightarrow> (('t, 'e) expected \<times> 'w) option" where
  "v3_chain ex [] w = Some (ex, w)"
| "v3_chain ex (f # fs) w =
     (case v3_pipe ex f w of
        None \<Rightarrow> None
      | Some (r, w') \<Rightarrow> v3_chain r fs w')"

subsection \<open>The example of namespace \<^verbatim>\<open>v3\<close>\<close>

text \<open>
  \<^verbatim>\<open>int\<close> is a 32-bit word. Signed overflow is undefined in C++; the model wraps
  around, and no statement below is about a counter at the end of its range.
  \<^verbatim>\<open>OpErrorType\<close> is an enumeration over \<^verbatim>\<open>unsigned char\<close>, so that an object of
  the type can hold any of the 256 values; the three enumerators are 0, 1 and 2.
\<close>

record Payload =
  fStr :: string
  fVal :: "32 word"

type_synonym OpErrorType = "8 word"

definition kInvalidInput :: OpErrorType where "kInvalidInput = 0"
definition kOverflow :: OpErrorType where "kOverflow = 1"
definition kUnderflow :: OpErrorType where "kUnderflow = 2"

type_synonym PayloadOrError = "(Payload, OpErrorType) expected"

text \<open>
  What the example sees of the outside world: what has been written to
  \<^verbatim>\<open>std::cout\<close>, one entry for each \<^verbatim>\<open><<\<close>; the values that
  \<^verbatim>\<open>std::random_device\<close> will return, the next one at index 0; and the generator
  \<^verbatim>\<open>std::mt19937\<close> of the standard library, which is not part of the repository:
  \<open>mt19937 w seed k\<close> is the value of call number \<open>k\<close> of a generator that was
  constructed from \<open>seed\<close>. Every statement below holds for any such function.
\<close>

datatype out = Str string | Num "32 word"

record world =
  cout :: "out list"
  random_device :: "nat \<Rightarrow> 32 word"
  mt19937 :: "32 word \<Rightarrow> nat \<Rightarrow> 32 word"

definition print :: "out list \<Rightarrow> world \<Rightarrow> world" where
  "print xs w = w\<lparr>cout := cout w @ xs\<rparr>"

definition next_seed :: "world \<Rightarrow> 32 word \<times> world" where
  "next_seed w = (random_device w 0, w\<lparr>random_device := (\<lambda>n. random_device w (Suc n))\<rparr>)"

text \<open>The three functions of the basic example, which the pipe of \<^verbatim>\<open>v2\<close> chains.\<close>

definition StringProc_1 :: "string \<Rightarrow> world \<Rightarrow> string \<times> world" where
  "StringProc_1 s w =
     (let s1 = s @ '' proc by 1,'';
          w1 = print [Str ''I'm in StringProc_1, s = '', Str s1, Str ''\<newline>''] w
      in (s1, w1))"

definition StringProc_2 :: "string \<Rightarrow> world \<Rightarrow> string \<times> world" where
  "StringProc_2 s w =
     (let s1 = s @ '' proc by 2,'';
          w1 = print [Str ''I'm in StringProc_2, s = '', Str s1, Str ''\<newline>''] w
      in (s1, w1))"

definition StringProc_3 :: "string \<Rightarrow> world \<Rightarrow> string \<times> world" where
  "StringProc_3 s w =
     (let s1 = s @ '' proc by 3,'';
          w1 = print [Str ''I'm in StringProc_3, s = '', Str s1, Str ''\<newline>''] w
      in (s1, w1))"

text \<open>
  The three steps of namespace \<^verbatim>\<open>v3\<close>. The case \<open>Inl\<close> of each is its guard
  \<^verbatim>\<open>if (!s) return s;\<close>.
\<close>

definition Payload_Proc_1 :: "PayloadOrError \<Rightarrow> world \<Rightarrow> PayloadOrError \<times> world" where
  "Payload_Proc_1 s w =
     (case s of
        Inl e \<Rightarrow> (s, w)
      | Inr p \<Rightarrow>
          (let p1 = p\<lparr>fVal := fVal p + 1\<rparr>;
               p2 = p1\<lparr>fStr := fStr p1 @ '' proc by 1,''\<rparr>;
               w1 = print [Str ''I'm in Payload_Proc_1, s = '', Str (fStr p2), Str ''\<newline>''] w
           in (Inr p2, w1)))"

definition Payload_Proc_2 :: "PayloadOrError \<Rightarrow> world \<Rightarrow> PayloadOrError \<times> world" where
  "Payload_Proc_2 s w =
     (case s of
        Inl e \<Rightarrow> (s, w)
      | Inr p \<Rightarrow>
          (let p1 = p\<lparr>fVal := fVal p + 1\<rparr>;
               p2 = p1\<lparr>fStr := fStr p1 @ '' proc by 2,''\<rparr>;
               w1 = print [Str ''I'm in Payload_Proc_2, s = '', Str (fStr p2), Str ''\<newline>''] w;
               (seed, w2) = next_seed w1
           in if mt19937 w2 seed 0 mod 2 \<noteq> 0 then (Inr p2, w2)
              else (unexpected (if mt19937 w2 seed 1 mod 2 \<noteq> 0 then kOverflow else kUnderflow),
                    w2)))"

definition Payload_Proc_3 :: "PayloadOrError \<Rightarrow> world \<Rightarrow> PayloadOrError \<times> world" where
  "Payload_Proc_3 s w =
     (case s of
        Inl e \<Rightarrow> (s, w)
      | Inr p \<Rightarrow>
          (let p1 = p\<lparr>fVal := fVal p + 3\<rparr>;
               p2 = p1\<lparr>fStr := fStr p1 @ '' proc by 3,''\<rparr>;
               w1 = print [Str ''I'm in Payload_Proc_3, s = '', Str (fStr p2), Str ''\<newline>''] w
           in (Inr p2, w1)))"

text \<open>
  The three functions take a \<^verbatim>\<open>PayloadOrError\<close>, and the operator invokes its right
  operand with a \<^verbatim>\<open>Payload\<close>: the call converts the payload with the converting
  constructor. \<open>Payload_steps\<close> are the right operands of the pipe in
  \<^verbatim>\<open>Payload_PipeTest\<close>, as the operator invokes them.
\<close>

definition on_value ::
  "(('t, 'e) expected \<Rightarrow> 'w \<Rightarrow> ('t, 'e) expected \<times> 'w) \<Rightarrow> 't \<Rightarrow> 'w \<Rightarrow> ('t, 'e) expected \<times> 'w" where
  "on_value g v w = g (from_value v) w"

definition Payload_steps :: "(Payload \<Rightarrow> world \<Rightarrow> PayloadOrError \<times> world) list" where
  "Payload_steps = [on_value Payload_Proc_1, on_value Payload_Proc_2, on_value Payload_Proc_3]"

definition start_payload :: Payload where
  "start_payload = \<lparr>fStr = ''Start string '', fVal = 42\<rparr>"

text \<open>The initialiser of \<^verbatim>\<open>res\<close> in \<^verbatim>\<open>Payload_PipeTest\<close>.\<close>

definition Payload_PipeTest_res :: "world \<Rightarrow> (PayloadOrError \<times> world) option" where
  "Payload_PipeTest_res w = v3_chain (from_value start_payload) Payload_steps w"

text \<open>The \<^verbatim>\<open>switch\<close> over \<^verbatim>\<open>res.error()\<close>.\<close>

definition error_switch :: "OpErrorType \<Rightarrow> world \<Rightarrow> world" where
  "error_switch e w =
     (if e = kInvalidInput then print [Str ''Error: OpErrorType::kInvalidInput\<newline>''] w
      else if e = kOverflow then print [Str ''Error: OpErrorType::kOverflow\<newline>''] w
      else if e = kUnderflow then print [Str ''Error: OpErrorType::kUnderflow\<newline>''] w
      else print [Str ''That's really an unexpected error ...\<newline>''] w)"

definition Payload_PipeTest :: "world \<Rightarrow> world option" where
  "Payload_PipeTest w =
     (case Payload_PipeTest_res w of
        None \<Rightarrow> None
      | Some (res, w1) \<Rightarrow>
          (case res of
             Inr p \<Rightarrow> Some (print [Str ''Success! Result of the pipe: fStr == '', Str (fStr p),
                                   Str '' fVal == '', Num (fVal p)] w1)
           | Inl e \<Rightarrow> Some (error_switch e w1)))"

subsection \<open>Recording steps\<close>

text \<open>
  Whether a step is invoked, and with what, is seen through a step that keeps a
  record: \<open>record_call f\<close> behaves as \<open>f\<close> and appends the argument of every
  invocation to a log that it keeps beside the state of the world, and
  \<open>record_result f\<close> appends what \<open>f\<close> returned.
\<close>

definition record_call :: "('a \<Rightarrow> 'w \<Rightarrow> 'b \<times> 'w) \<Rightarrow> 'a \<Rightarrow> 'w \<times> 'a list \<Rightarrow> 'b \<times> ('w \<times> 'a list)" where
  "record_call f a = (\<lambda>(w, log). case f a w of (b, w') \<Rightarrow> (b, (w', log @ [a])))"

definition record_result :: "('a \<Rightarrow> 'w \<Rightarrow> 'b \<times> 'w) \<Rightarrow> 'a \<Rightarrow> 'w \<times> 'b list \<Rightarrow> 'b \<times> ('w \<times> 'b list)" where
  "record_result f a = (\<lambda>(w, log). case f a w of (b, w') \<Rightarrow> (b, (w', log @ [b])))"

subsection \<open>Nested application\<close>

text \<open>
  \<open>nested [g, f] a\<close> is \<^verbatim>\<open>g(f(a))\<close>: the functions are listed from the outermost to
  the innermost, and the innermost is called first. \<open>all_succeed gs a w\<close> holds when
  \<open>a\<close> holds a value and so does every result along \<^verbatim>\<open>gn(...g1(a))\<close>, for
  \<open>gs = [g1, ..., gn]\<close>.
\<close>

fun nested :: "('a \<Rightarrow> 'w \<Rightarrow> 'a \<times> 'w) list \<Rightarrow> 'a \<Rightarrow> 'w \<Rightarrow> 'a \<times> 'w" where
  "nested [] a w = (a, w)"
| "nested (g # gs) a w = (case nested gs a w of (x, w') \<Rightarrow> g x w')"

fun all_succeed ::
  "(('t, 'e) expected \<Rightarrow> 'w \<Rightarrow> ('t, 'e) expected \<times> 'w) list \<Rightarrow> ('t, 'e) expected \<Rightarrow> 'w \<Rightarrow> bool" where
  "all_succeed [] a w = has_value a"
| "all_succeed (g # gs) a w = (has_value a \<and> (case g a w of (x, w') \<Rightarrow> all_succeed gs x w'))"

subsection \<open>The state machine of the specification\<close>

text \<open>
  The specification describes one evaluation as a machine with the states
  \<open>Running i r\<close> and \<open>Done r\<close>, here with the state of the world beside the result:
  \<open>Running i r\<close> goes to \<open>Running (i + 1) r'\<close> if \<open>r\<close> is a success, \<open>r'\<close> being
  what step \<open>i\<close> returns on the payload of \<open>r\<close>, and to \<open>Done r\<close> if \<open>r\<close> is a
  failure, for \<open>i\<close> below the number of steps; \<open>Running i r\<close> goes to \<open>Done r\<close> for
  \<open>i\<close> the number of steps; \<open>Done\<close> is terminal. \<open>spec_transition\<close> is that transition,
  \<open>spec_transitions steps k\<close> makes \<open>k\<close> of them, and \<open>spec_run steps n st\<close> is the
  result of the machine if it reaches \<open>Done\<close> from \<open>st\<close> in at most \<open>n\<close> transitions.
\<close>

datatype ('t, 'e, 'w) spec_state = Running nat "('t, 'e) expected" 'w | Done "('t, 'e) expected" 'w

fun spec_transition ::
  "('t \<Rightarrow> 'w \<Rightarrow> ('t, 'e) expected \<times> 'w) list \<Rightarrow> ('t, 'e, 'w) spec_state \<Rightarrow> ('t, 'e, 'w) spec_state option" where
  "spec_transition steps (Running i r w) =
     (if i < length steps then
        (case r of
           Inr v \<Rightarrow> (case (steps ! i) v w of (r', w') \<Rightarrow> Some (Running (Suc i) r' w'))
         | Inl e \<Rightarrow> Some (Done r w))
      else if i = length steps then Some (Done r w)
      else None)"
| "spec_transition steps (Done r w) = None"

fun spec_transitions ::
  "('t \<Rightarrow> 'w \<Rightarrow> ('t, 'e) expected \<times> 'w) list \<Rightarrow> nat \<Rightarrow> ('t, 'e, 'w) spec_state
     \<Rightarrow> ('t, 'e, 'w) spec_state option" where
  "spec_transitions steps 0 st = Some st"
| "spec_transitions steps (Suc k) st =
     (case spec_transition steps st of None \<Rightarrow> None | Some st' \<Rightarrow> spec_transitions steps k st')"

fun spec_run ::
  "('t \<Rightarrow> 'w \<Rightarrow> ('t, 'e) expected \<times> 'w) list \<Rightarrow> nat \<Rightarrow> ('t, 'e, 'w) spec_state
     \<Rightarrow> (('t, 'e) expected \<times> 'w) option" where
  "spec_run steps n (Done r w) = Some (r, w)"
| "spec_run steps 0 (Running i r w) = None"
| "spec_run steps (Suc n) (Running i r w) =
     (case spec_transition steps (Running i r w) of
        None \<Rightarrow> None
      | Some st \<Rightarrow> spec_run steps n st)"

text \<open>
  \<open>spec_rank\<close> bounds the number of transitions that the machine can still make from a
  state.
\<close>

fun spec_rank :: "('t \<Rightarrow> 'w \<Rightarrow> ('t, 'e) expected \<times> 'w) list \<Rightarrow> ('t, 'e, 'w) spec_state \<Rightarrow> nat" where
  "spec_rank steps (Running i r w) = Suc (length steps - i)"
| "spec_rank steps (Done r w) = 0"

subsection \<open>Worlds to run the example in\<close>

text \<open>
  In \<open>world_of seed\<close> nothing has been printed, the random device returns \<open>seed\<close>
  every time, and call number \<open>k\<close> of a generator returns its seed without the \<open>k\<close>
  lowest bits: with seed 1 \<^verbatim>\<open>Payload_Proc_2\<close> succeeds, with seed 2 it fails with
  \<^verbatim>\<open>kOverflow\<close>, with seed 0 with \<^verbatim>\<open>kUnderflow\<close>.
\<close>

definition world_of :: "32 word \<Rightarrow> world" where
  "world_of seed = \<lparr>cout = [], random_device = (\<lambda>n. seed), mt19937 = (\<lambda>s k. drop_bit k s)\<rparr>"

section \<open>Properties\<close>

subsection \<open>The operator and the chain\<close>

lemma v3_pipe_value: "v3_pipe (Inr v) f w = Some (f v w)"
  by (simp add: v3_pipe_def has_value_def deref_def)

lemma v3_pipe_error: "v3_pipe (Inl e) f w = Some (Inl e, w)"
  by (simp add: v3_pipe_def has_value_def)

lemma v3_chain_error: "v3_chain (Inl e) fs w = Some (Inl e, w)"
  by (induction fs) (simp_all add: v3_pipe_error)

lemma v3_chain_append:
  "v3_chain ex (fs @ gs) w =
     (case v3_chain ex fs w of None \<Rightarrow> None | Some (r, w') \<Rightarrow> v3_chain r gs w')"
proof (induction fs arbitrary: ex w)
  case Nil
  show ?case by simp
next
  case (Cons f fs)
  show ?case
    by (cases ex) (simp_all add: v3_pipe_value v3_pipe_error Cons.IH split: prod.splits)
qed

lemma v3_chain_total: "\<exists>r w'. v3_chain ex fs w = Some (r, w')"
proof (induction fs arbitrary: ex w)
  case Nil
  show ?case by simp
next
  case (Cons f fs)
  show ?case
  proof (cases ex)
    case (Inl e)
    then show ?thesis by (simp only: v3_chain_error) blast
  next
    case (Inr v)
    obtain r w1 where "f v w = (r, w1)" by (cases "f v w")
    with Inr Cons.IH [of r w1] show ?thesis by (simp add: v3_pipe_value)
  qed
qed

text \<open>
  The chain written as the compiler reads it: the last operator is the outermost, and
  its left operand is the chain before it.
\<close>

lemma v3_chain_snoc:
  "v3_chain ex (fs @ [g]) w =
     (case v3_chain ex fs w of None \<Rightarrow> None | Some (r, w') \<Rightarrow> v3_pipe r g w')"
  by (simp add: v3_chain_append split: option.splits prod.splits)

lemmas example_defs =
  Payload_PipeTest_res_def Payload_steps_def start_payload_def from_value_def unexpected_def
  on_value_def Payload_Proc_1_def Payload_Proc_2_def Payload_Proc_3_def print_def next_seed_def
  v3_pipe_value v3_pipe_error

lemmas run_defs = example_defs world_of_def kOverflow_def kUnderflow_def kInvalidInput_def

text \<open>
  \<^verbatim>\<open>Payload_Proc_2\<close> is where the example is not deterministic: its result depends
  on what the random device returns.
\<close>

lemma Payload_Proc_2_depends_on_world:
  "fst (Payload_Proc_2 (from_value start_payload) (world_of 1)) =
     from_value \<lparr>fStr = ''Start string  proc by 2,'', fVal = 43\<rparr> \<and>
   fst (Payload_Proc_2 (from_value start_payload) (world_of 2)) = unexpected kOverflow \<and>
   fst (Payload_Proc_2 (from_value start_payload) (world_of 0)) = unexpected kUnderflow"
  by (simp add: run_defs)

text \<open>
  The pipe of \<^verbatim>\<open>SimplePipeTest\<close>, whose value the test prints. In namespace
  \<^verbatim>\<open>v2\<close> the third operand is a lambda or a function object with the body of
  \<^verbatim>\<open>StringProc_3\<close>.
\<close>

lemma v2_SimplePipeTest_value:
  "fst (v2_chain ''Start string '' [StringProc_1, StringProc_2, StringProc_3] (world_of 1)) =
     ''Start string  proc by 1, proc by 2, proc by 3,''"
  by (simp add: v2_pipe_def StringProc_1_def StringProc_2_def StringProc_3_def Let_def)

subsection \<open>Short circuit\<close>

text \<open>
  C1. If the chain \<open>ex | f1 | ... | fn\<close> has the failure \<open>e\<close> as its result, then
  so has every chain that continues it with further steps \<open>gs\<close>, and the world at
  the end is the same one: the further steps have no effect at all. The case of no
  step \<open>fs\<close> is the one of an initial result that is a failure already. A step that
  records its invocations records none: started on a failure, the log is unchanged.
\<close>

theorem short_circuit:
  "v3_chain ex fs w = Some (Inl e, w') \<Longrightarrow>
     v3_chain ex (fs @ gs) w = Some (Inl e, w') \<and>
     v3_chain (Inl e) (map record_call gs) (w', log) = Some (Inl e, (w', log))"
  by (simp add: v3_chain_append v3_chain_error)

theorem short_circuit_witness:
  "map_option fst (v3_chain (from_value start_payload)
      [on_value Payload_Proc_1, on_value Payload_Proc_2] (world_of 2)) = Some (Inl kOverflow) \<and>
   v3_chain (from_value start_payload)
      ([on_value Payload_Proc_1, on_value Payload_Proc_2] @ [on_value Payload_Proc_3]) (world_of 2) =
   v3_chain (from_value start_payload)
      [on_value Payload_Proc_1, on_value Payload_Proc_2] (world_of 2) \<and>
   v3_chain (unexpected kInvalidInput) ([] @ [on_value Payload_Proc_1]) (world_of 1) =
     Some (unexpected kInvalidInput, world_of 1)"
proof -
  obtain w' where h: "v3_chain (from_value start_payload)
      [on_value Payload_Proc_1, on_value Payload_Proc_2] (world_of 2) = Some (Inl kOverflow, w')"
    by (simp add: run_defs)
  have k: "v3_chain (unexpected kInvalidInput) [] (world_of 1) = Some (Inl kInvalidInput, world_of 1)"
    by (simp add: unexpected_def)
  from h short_circuit [OF h, of "[on_value Payload_Proc_3]"]
    short_circuit [OF k, of "[on_value Payload_Proc_1]"]
  show ?thesis by (simp add: unexpected_def)
qed

subsection \<open>The pipe is nested application\<close>

lemma nested_append:
  "nested (fs @ gs) a w = (case nested gs a w of (x, w') \<Rightarrow> nested fs x w')"
  by (induction fs arbitrary: a w) (simp_all split: prod.splits)

lemma v3_chain_nested:
  "all_succeed gs a w \<Longrightarrow> v3_chain a (map on_value gs) w = Some (nested (rev gs) a w)"
proof (induction gs arbitrary: a w)
  case Nil
  show ?case by simp
next
  case (Cons g gs)
  from Cons.prems obtain v where a: "a = Inr v"
    by (cases a) (simp_all add: has_value_def)
  obtain x w1 where g: "g (Inr v) w = (x, w1)" by (cases "g (Inr v) w")
  with Cons.prems a have "all_succeed gs x w1" by simp
  then have "v3_chain x (map on_value gs) w1 = Some (nested (rev gs) x w1)"
    by (rule Cons.IH)
  moreover from g have "on_value g v w = (x, w1)"
    by (simp add: on_value_def from_value_def)
  ultimately show ?case
    using a g by (simp add: v3_pipe_value nested_append)
qed

lemma v2_chain_nested: "v2_chain t fs w = nested (rev fs) t w"
  by (induction fs arbitrary: t w) (simp_all add: v2_pipe_def nested_append split: prod.splits)

text \<open>
  C2. When the initial result and the result of every step are successes, the chain
  \<open>a | g1 | ... | gn\<close> of \<^verbatim>\<open>v3\<close> returns what the nested application
  \<^verbatim>\<open>gn(...(g1(a)))\<close> returns, in particular \<^verbatim>\<open>a | f | g\<close> is \<^verbatim>\<open>g(f(a))\<close>. For
  the operator of \<^verbatim>\<open>v2\<close>, which knows no failure, the same holds of every chain.
\<close>

theorem pipe_is_nested_application:
  "(all_succeed gs a w \<longrightarrow> v3_chain a (map on_value gs) w = Some (nested (rev gs) a w)) \<and>
   (all_succeed [f, g] a w \<longrightarrow>
      v3_chain a [on_value f, on_value g] w = Some (case f a w of (x, w') \<Rightarrow> g x w')) \<and>
   v2_chain t fs u = nested (rev fs) t u \<and>
   v2_chain t [h, k] u = (case h t u of (x, u') \<Rightarrow> k x u')"
proof -
  have "all_succeed [f, g] a w \<Longrightarrow>
      v3_chain a [on_value f, on_value g] w = Some (case f a w of (x, w') \<Rightarrow> g x w')"
    using v3_chain_nested [of "[f, g]" a w] by simp
  moreover have "v2_chain t [h, k] u = (case h t u of (x, u') \<Rightarrow> k x u')"
    by (simp add: v2_pipe_def split: prod.splits)
  ultimately show ?thesis
    by (simp add: v3_chain_nested v2_chain_nested)
qed

theorem pipe_is_nested_application_witness:
  "all_succeed [Payload_Proc_1, Payload_Proc_2, Payload_Proc_3] (from_value start_payload) (world_of 1) \<and>
   v3_chain (from_value start_payload) (map on_value [Payload_Proc_1, Payload_Proc_2, Payload_Proc_3])
      (world_of 1) =
     Some (nested (rev [Payload_Proc_1, Payload_Proc_2, Payload_Proc_3])
             (from_value start_payload) (world_of 1)) \<and>
   all_succeed [Payload_Proc_1, Payload_Proc_3] (from_value start_payload) (world_of 1) \<and>
   v3_chain (from_value start_payload) [on_value Payload_Proc_1, on_value Payload_Proc_3] (world_of 1) =
     Some (case Payload_Proc_1 (from_value start_payload) (world_of 1) of
             (x, w') \<Rightarrow> Payload_Proc_3 x w') \<and>
   v2_chain ''Start string '' [StringProc_1, StringProc_2] (world_of 1) =
     (case StringProc_1 ''Start string '' (world_of 1) of (x, u') \<Rightarrow> StringProc_2 x u')"
proof -
  have h: "all_succeed [Payload_Proc_1, Payload_Proc_2, Payload_Proc_3] (from_value start_payload) (world_of 1)"
    by (simp add: has_value_def run_defs)
  have k: "all_succeed [Payload_Proc_1, Payload_Proc_3] (from_value start_payload) (world_of 1)"
    by (simp add: has_value_def run_defs)
  note t = pipe_is_nested_application [of "[Payload_Proc_1, Payload_Proc_2, Payload_Proc_3]"
      "from_value start_payload" "world_of 1" Payload_Proc_1 Payload_Proc_3
      "''Start string ''" "[]" "world_of 1" StringProc_1 StringProc_2]
  have c: "v3_chain (from_value start_payload)
      (map on_value [Payload_Proc_1, Payload_Proc_2, Payload_Proc_3]) (world_of 1) =
     Some (nested (rev [Payload_Proc_1, Payload_Proc_2, Payload_Proc_3])
             (from_value start_payload) (world_of 1))"
    by (rule t [THEN conjunct1, rule_format, OF h])
  have d: "v3_chain (from_value start_payload)
      [on_value Payload_Proc_1, on_value Payload_Proc_3] (world_of 1) =
     Some (case Payload_Proc_1 (from_value start_payload) (world_of 1) of
             (x, w') \<Rightarrow> Payload_Proc_3 x w')"
    by (rule t [THEN conjunct2, THEN conjunct1, rule_format, OF k])
  have e: "v2_chain ''Start string '' [StringProc_1, StringProc_2] (world_of 1) =
     (case StringProc_1 ''Start string '' (world_of 1) of (x, u') \<Rightarrow> StringProc_2 x u')"
    by (rule t [THEN conjunct2, THEN conjunct2, THEN conjunct2])
  from h c k d e show ?thesis by (intro conjI)
qed

subsection \<open>Steps that append to the text\<close>

text \<open>
  C3. Let every step of a chain always succeed and return the payload it was given
  with one fragment appended to the text, and nothing else changed. Started on a
  success, the chain returns a success whose text is the initial text followed by the
  fragments in the order of the steps, and whose counter is the initial counter.
\<close>

theorem append_only_steps:
  assumes "list_all2 (\<lambda>s frag. \<forall>q u. fst (s q u) = from_value (q\<lparr>fStr := fStr q @ frag\<rparr>)) ss frags"
  shows "\<exists>q w'. v3_chain (from_value p) ss w = Some (from_value q, w') \<and>
           fStr q = fStr p @ concat frags \<and> fVal q = fVal p"
  using assms
proof (induction ss frags arbitrary: p w rule: list_all2_induct)
  case Nil
  show ?case by (simp add: from_value_def)
next
  case (Cons s ss frag frags)
  obtain r w1 where s: "s p w = (r, w1)" by (cases "s p w")
  with Cons.hyps(1) have r: "r = from_value (p\<lparr>fStr := fStr p @ frag\<rparr>)"
    by (metis fst_conv)
  from Cons.IH [of "p\<lparr>fStr := fStr p @ frag\<rparr>" w1]
  obtain q w' where "v3_chain (from_value (p\<lparr>fStr := fStr p @ frag\<rparr>)) ss w1 = Some (from_value q, w')"
    and "fStr q = fStr p @ frag @ concat frags" and "fVal q = fVal p"
    by auto
  with s r show ?case
    by (simp add: from_value_def v3_pipe_value)
qed

theorem append_only_steps_witness:
  "list_all2 (\<lambda>s frag. \<forall>q u. fst (s q u) = from_value (q\<lparr>fStr := fStr q @ frag\<rparr>))
     [\<lambda>q (u::unit). (from_value (q\<lparr>fStr := fStr q @ ''-a''\<rparr>) :: PayloadOrError, u),
      \<lambda>q u. (from_value (q\<lparr>fStr := fStr q @ ''-b''\<rparr>), u)] [''-a'', ''-b''] \<and>
   v3_chain (from_value \<lparr>fStr = ''start'', fVal = 0\<rparr>)
     [\<lambda>q u. (from_value (q\<lparr>fStr := fStr q @ ''-a''\<rparr>), u),
      \<lambda>q u. (from_value (q\<lparr>fStr := fStr q @ ''-b''\<rparr>), u)] () =
     Some (from_value \<lparr>fStr = ''start-a-b'', fVal = 0\<rparr> :: PayloadOrError, ())"
proof -
  have h: "list_all2 (\<lambda>s frag. \<forall>q u. fst (s q u) = from_value (q\<lparr>fStr := fStr q @ frag\<rparr>))
     [\<lambda>q (u::unit). (from_value (q\<lparr>fStr := fStr q @ ''-a''\<rparr>) :: PayloadOrError, u),
      \<lambda>q u. (from_value (q\<lparr>fStr := fStr q @ ''-b''\<rparr>), u)] [''-a'', ''-b'']"
    by simp
  from append_only_steps [OF h, of "\<lparr>fStr = ''start'', fVal = 0\<rparr>" "()"]
  obtain q w' where c: "v3_chain (from_value \<lparr>fStr = ''start'', fVal = 0\<rparr>)
     [\<lambda>q (u::unit). (from_value (q\<lparr>fStr := fStr q @ ''-a''\<rparr>) :: PayloadOrError, u),
      \<lambda>q u. (from_value (q\<lparr>fStr := fStr q @ ''-b''\<rparr>), u)] () = Some (from_value q, w')"
    and "fStr q = fStr \<lparr>fStr = ''start'', fVal = 0\<rparr> @ concat [''-a'', ''-b'']"
    and "fVal q = fVal \<lparr>fStr = ''start'', fVal = 0\<rparr>"
    by blast
  then have "q = \<lparr>fStr = ''start-a-b'', fVal = 0\<rparr>"
    by (cases q) simp
  with c h show ?thesis by simp
qed

text \<open>
  The steps of the example are not of that kind: \<^verbatim>\<open>Payload_Proc_1\<close> and
  \<^verbatim>\<open>Payload_Proc_3\<close> always succeed, and they add 1 and 3 to the counter.
\<close>

lemma Payload_Proc_1_3_change_counter:
  "map_option fst (v3_chain (from_value \<lparr>fStr = ''start'', fVal = 0\<rparr>)
      [on_value Payload_Proc_1, on_value Payload_Proc_3] (world_of 1)) =
     Some (from_value \<lparr>fStr = ''start proc by 1, proc by 3,'', fVal = 4\<rparr>)"
  by (simp add: run_defs)

subsection \<open>The empty chain\<close>

text \<open>
  C4. A chain with no step returns the initial result as it is, be it a success or a
  failure, and leaves the world as it is.
\<close>

theorem empty_chain: "v3_chain initial [] w = Some (initial, w)"
  by simp

subsection \<open>The state machine\<close>

lemma spec_run_drop:
  "i \<le> length steps \<Longrightarrow> length steps - i < n \<Longrightarrow>
     spec_run steps n (Running i r w) = v3_chain r (drop i steps) w"
proof (induction n arbitrary: i r w)
  case 0
  then show ?case by simp
next
  case (Suc n)
  show ?case
  proof (cases "i < length steps")
    case False
    with Suc.prems show ?thesis by simp
  next
    case True
    then have d: "drop i steps = steps ! i # drop (Suc i) steps"
      by (simp add: Cons_nth_drop_Suc)
    show ?thesis
    proof (cases r)
      case (Inl e)
      with True show ?thesis by (simp add: v3_chain_error)
    next
      case (Inr v)
      obtain r' w' where s: "(steps ! i) v w = (r', w')" by (cases "(steps ! i) v w")
      from True Suc.prems have "spec_run steps n (Running (Suc i) r' w') = v3_chain r' (drop (Suc i) steps) w'"
        by (intro Suc.IH) simp_all
      with True Inr s d show ?thesis by (simp add: v3_pipe_value)
    qed
  qed
qed

lemma spec_transition_rank: "spec_transition steps st = Some st' \<Longrightarrow> spec_rank steps st' < spec_rank steps st"
  by (cases st) (auto split: if_splits sum.splits prod.splits)

lemma spec_transitions_rank: "spec_transitions steps k st = Some st' \<Longrightarrow> spec_rank steps st' + k \<le> spec_rank steps st"
proof (induction k arbitrary: st)
  case 0
  then show ?case by simp
next
  case (Suc k)
  then obtain st1 where t: "spec_transition steps st = Some st1" and "spec_transitions steps k st1 = Some st'"
    by (auto split: option.splits)
  with Suc.IH [of st1] spec_transition_rank [OF t] show ?case by simp
qed

lemma spec_transitions_acyclic: "spec_transitions steps (Suc k) st \<noteq> Some st"
  using spec_transitions_rank [of steps "Suc k" st st] by auto

text \<open>
  C5, as amended. From \<open>Running 0 initial\<close> the machine reaches \<open>Done\<close> in at most
  one transition more than there are steps, with the result and the world that the
  chain returns; the chain returns a result for every list of steps and every initial
  result; and no sequence of one or more transitions leads from a state back to it.
\<close>

theorem machine_reaches_done:
  "spec_run steps (Suc (length steps)) (Running 0 initial w) = v3_chain initial steps w \<and>
   (\<exists>final w'. v3_chain initial steps w = Some (final, w')) \<and>
   spec_transitions steps (Suc k) st \<noteq> Some st"
proof (intro conjI)
  show "spec_run steps (Suc (length steps)) (Running 0 initial w) = v3_chain initial steps w"
    using spec_run_drop [of 0 steps "Suc (length steps)" initial w] by simp
  show "\<exists>final w'. v3_chain initial steps w = Some (final, w')"
    by (rule v3_chain_total)
  show "spec_transitions steps (Suc k) st \<noteq> Some st"
    by (rule spec_transitions_acyclic)
qed

theorem machine_reaches_done_witness:
  "spec_run Payload_steps (Suc (length Payload_steps))
     (Running 0 (from_value start_payload) (world_of 1)) = Payload_PipeTest_res (world_of 1) \<and>
   map_option fst (Payload_PipeTest_res (world_of 1)) =
     Some (from_value \<lparr>fStr = ''Start string  proc by 1, proc by 2, proc by 3,'', fVal = 47\<rparr>)"
proof -
  have "map_option fst (Payload_PipeTest_res (world_of 1)) =
     Some (from_value \<lparr>fStr = ''Start string  proc by 1, proc by 2, proc by 3,'', fVal = 47\<rparr>)"
    by (simp add: run_defs)
  with machine_reaches_done [of Payload_steps "from_value start_payload" "world_of 1"]
  show ?thesis by (simp add: Payload_PipeTest_res_def)
qed

text \<open>
  The bound of the claim as it is stated, the number of steps, is one too small: when
  the three steps of the example succeed, the machine goes through \<open>Running 1\<close>,
  \<open>Running 2\<close> and \<open>Running 3\<close> and is \<open>Done\<close> after the fourth transition.
\<close>

theorem machine_bound_counterexample:
  "spec_run Payload_steps (length Payload_steps)
     (Running 0 (from_value start_payload) (world_of 1)) = None \<and>
   map_option fst (spec_run Payload_steps (Suc (length Payload_steps))
     (Running 0 (from_value start_payload) (world_of 1))) =
     Some (from_value \<lparr>fStr = ''Start string  proc by 1, proc by 2, proc by 3,'', fVal = 47\<rparr>)"
  by (simp add: Payload_steps_def start_payload_def world_of_def from_value_def numeral_3_eq_3
      on_value_def Payload_Proc_1_def Payload_Proc_2_def Payload_Proc_3_def print_def next_seed_def)

subsection \<open>Safety of the operator\<close>

text \<open>
  C6. The operator and the chain never run into undefined behaviour, whatever the
  left operand and the steps: the operator dereferences its left operand only when it
  holds a value, where the dereference is defined, and when the left operand holds an
  error the operator, and so the chain, returns that very operand and leaves the
  world as it is.
\<close>

theorem pipe_safe:
  "v3_pipe ex f w \<noteq> None \<and> v3_chain ex fs w \<noteq> None \<and>
   (has_value ex \<longrightarrow> deref ex \<noteq> None) \<and>
   (\<not> has_value ex \<longrightarrow> v3_pipe ex f w = Some (ex, w) \<and> v3_chain ex fs w = Some (ex, w))"
proof -
  have "v3_chain ex fs w \<noteq> None"
    using v3_chain_total [of ex fs w] by auto
  then show ?thesis
    by (cases ex) (simp_all add: v3_pipe_value v3_pipe_error v3_chain_error has_value_def deref_def)
qed

theorem pipe_safe_witness:
  "\<not> has_value (unexpected kOverflow :: PayloadOrError) \<and>
   v3_pipe (unexpected kOverflow) (on_value Payload_Proc_3) (world_of 1) =
     Some (unexpected kOverflow, world_of 1) \<and>
   has_value (from_value start_payload :: PayloadOrError) \<and>
   deref (from_value start_payload :: PayloadOrError) = Some start_payload \<and>
   v3_pipe (from_value start_payload) (on_value Payload_Proc_3) (world_of 1) \<noteq> None"
proof -
  have h: "\<not> has_value (unexpected kOverflow :: PayloadOrError)"
    by (simp add: has_value_def unexpected_def)
  have k: "has_value (from_value start_payload :: PayloadOrError)"
    by (simp add: has_value_def from_value_def)
  from h k pipe_safe [of "unexpected kOverflow" "on_value Payload_Proc_3" "world_of 1" "[]"]
    pipe_safe [of "from_value start_payload" "on_value Payload_Proc_3" "world_of 1" "[]"]
  show ?thesis by (simp add: deref_def from_value_def)
qed

subsection \<open>Determinism\<close>

lemma record_result_log:
  "v3_chain ex (map record_result fs) (w, l) = Some (r, (w', l')) \<Longrightarrow>
     \<exists>os. l' = l @ os \<and> r = last (ex # os)"
proof (induction fs arbitrary: ex w l)
  case Nil
  then show ?case by simp
next
  case (Cons f fs)
  show ?case
  proof (cases ex)
    case (Inl e)
    with Cons.prems show ?thesis by (simp add: v3_pipe_error v3_chain_error)
  next
    case (Inr v)
    obtain b w1 where f: "f v w = (b, w1)" by (cases "f v w")
    then have "record_result f v (w, l) = (b, (w1, l @ [b]))"
      by (simp add: record_result_def)
    with Inr Cons.prems have "v3_chain b (map record_result fs) (w1, l @ [b]) = Some (r, (w', l'))"
      by (simp add: v3_pipe_value)
    from Cons.IH [OF this] obtain os where "l' = (l @ [b]) @ os" and "r = last (b # os)"
      by blast
    then have "l' = l @ (b # os) \<and> r = last (ex # b # os)" by simp
    then show ?thesis by blast
  qed
qed

lemma record_result_erase:
  "map_option (\<lambda>(r, (w', l')). (r, w')) (v3_chain ex (map record_result fs) (w, l)) = v3_chain ex fs w"
proof (induction fs arbitrary: ex w l)
  case Nil
  show ?case by simp
next
  case (Cons f fs)
  show ?case
  proof (cases ex)
    case (Inl e)
    then show ?thesis by (simp add: v3_pipe_error v3_chain_error)
  next
    case (Inr v)
    obtain b w1 where f: "f v w = (b, w1)" by (cases "f v w")
    then have "record_result f v (w, l) = (b, (w1, l @ [b]))"
      by (simp add: record_result_def)
    with Inr f Cons.IH [of b w1 "l @ [b]"] show ?thesis
      by (simp add: v3_pipe_value)
  qed
qed

text \<open>
  C7. Take two runs of a chain from the same initial result, each with steps that
  record what they return, possibly with different steps and in different worlds. If
  the two records are the same, the two final results are the same: the final result
  is the last result recorded, or the initial result when no step was invoked.
\<close>

theorem evaluator_deterministic:
  assumes "v3_chain ex (map record_result fs1) (w1, []) = Some (r1, (w1', log))"
    and "v3_chain ex (map record_result fs2) (w2, []) = Some (r2, (w2', log))"
  shows "r1 = r2 \<and> r1 = last (ex # log)"
  using record_result_log [OF assms(1)] record_result_log [OF assms(2)] by simp

theorem evaluator_deterministic_witness:
  "map_option (\<lambda>(r, w, log). (r, log))
     (v3_chain (from_value start_payload) (map record_result Payload_steps) (world_of 2, [])) =
     Some (Inl kOverflow, [Inr \<lparr>fStr = ''Start string  proc by 1,'', fVal = 43\<rparr>, Inl kOverflow]) \<and>
   map_option (\<lambda>(r, w, log). (r, log))
     (v3_chain (from_value start_payload) (map record_result Payload_steps) (world_of 6, [])) =
     Some (Inl kOverflow, [Inr \<lparr>fStr = ''Start string  proc by 1,'', fVal = 43\<rparr>, Inl kOverflow])"
proof -
  obtain r1 w1 where h: "v3_chain (from_value start_payload) (map record_result Payload_steps) (world_of 2, []) =
     Some (r1, w1, [Inr \<lparr>fStr = ''Start string  proc by 1,'', fVal = 43\<rparr>, Inl kOverflow])"
    by (simp add: run_defs record_result_def)
  obtain r2 w2 where k: "v3_chain (from_value start_payload) (map record_result Payload_steps) (world_of 6, []) =
     Some (r2, w2, [Inr \<lparr>fStr = ''Start string  proc by 1,'', fVal = 43\<rparr>, Inl kOverflow])"
    by (simp add: run_defs record_result_def)
  note d = evaluator_deterministic [OF h k]
  from d have "r1 = r2" by (rule conjunct1)
  moreover from d have "r1 = Inl kOverflow" by auto
  ultimately show ?thesis using h k by simp
qed

subsection \<open>What a step is invoked with\<close>

lemma record_call_log:
  "v3_chain ex (map (\<lambda>g. on_value (record_call g)) gs) (w, l) = Some (r, (w', l')) \<Longrightarrow>
     \<exists>as. l' = l @ as \<and> list_all has_value as"
proof (induction gs arbitrary: ex w l)
  case Nil
  then show ?case by simp
next
  case (Cons g gs)
  show ?case
  proof (cases ex)
    case (Inl e)
    with Cons.prems show ?thesis by (simp add: v3_pipe_error v3_chain_error)
  next
    case (Inr v)
    obtain b w1 where g: "g (Inr v) w = (b, w1)" by (cases "g (Inr v) w")
    then have "on_value (record_call g) v (w, l) = (b, (w1, l @ [Inr v]))"
      by (simp add: on_value_def from_value_def record_call_def)
    with Inr Cons.prems
    have "v3_chain b (map (\<lambda>g. on_value (record_call g)) gs) (w1, l @ [Inr v]) = Some (r, (w', l'))"
      by (simp add: v3_pipe_value)
    from Cons.IH [OF this] obtain as where "l' = (l @ [Inr v]) @ as" and "list_all has_value as"
      by blast
    then have "l' = l @ (Inr v # as) \<and> list_all has_value (Inr v # as)"
      by (simp add: has_value_def)
    then show ?thesis by blast
  qed
qed

text \<open>Recording does not change what the chain returns nor what it does to the world.\<close>

lemma record_call_erase:
  "map_option (\<lambda>(r, (w', l')). (r, w'))
     (v3_chain ex (map (\<lambda>g. on_value (record_call g)) gs) (w, l)) =
   v3_chain ex (map on_value gs) w"
proof (induction gs arbitrary: ex w l)
  case Nil
  show ?case by simp
next
  case (Cons g gs)
  show ?case
  proof (cases ex)
    case (Inl e)
    then show ?thesis by (simp add: v3_pipe_error v3_chain_error)
  next
    case (Inr v)
    obtain b w1 where g: "g (Inr v) w = (b, w1)" by (cases "g (Inr v) w")
    then have "on_value (record_call g) v (w, l) = (b, (w1, l @ [Inr v]))"
      and "on_value g v w = (b, w1)"
      by (simp_all add: on_value_def from_value_def record_call_def)
    with Inr Cons.IH [of b w1 "l @ [Inr v]"] show ?thesis
      by (simp add: v3_pipe_value)
  qed
qed

text \<open>
  C8. Let the steps of a chain be functions that take a
  \<^verbatim>\<open>std::expected\<close>, as \<^verbatim>\<open>Payload_Proc_1\<close>, \<^verbatim>\<open>Payload_Proc_2\<close> and
  \<^verbatim>\<open>Payload_Proc_3\<close> are, and let each record the argument of every invocation.
  Every argument recorded holds a value, so that no invocation through the operator
  takes the guard \<^verbatim>\<open>if (!s) return s;\<close>.
\<close>

theorem step_argument_has_value:
  assumes "v3_chain ex (map (\<lambda>g. on_value (record_call g)) gs) (w, []) = Some (r, (w', log))"
  shows "list_all has_value log"
  using record_call_log [OF assms] by simp

theorem step_argument_has_value_witness:
  "map_option (\<lambda>(r, w, log). log)
     (v3_chain (from_value start_payload)
        (map (\<lambda>g. on_value (record_call g)) [Payload_Proc_1, Payload_Proc_2, Payload_Proc_3])
        (world_of 1, [])) =
     Some [Inr start_payload, Inr \<lparr>fStr = ''Start string  proc by 1,'', fVal = 43\<rparr>,
           Inr \<lparr>fStr = ''Start string  proc by 1, proc by 2,'', fVal = 44\<rparr>] \<and>
   list_all has_value [Inr start_payload :: PayloadOrError,
           Inr \<lparr>fStr = ''Start string  proc by 1,'', fVal = 43\<rparr>,
           Inr \<lparr>fStr = ''Start string  proc by 1, proc by 2,'', fVal = 44\<rparr>]"
proof -
  obtain r w' where h: "v3_chain (from_value start_payload)
        (map (\<lambda>g. on_value (record_call g)) [Payload_Proc_1, Payload_Proc_2, Payload_Proc_3])
        (world_of 1, []) =
     Some (r, w', [Inr start_payload, Inr \<lparr>fStr = ''Start string  proc by 1,'', fVal = 43\<rparr>,
           Inr \<lparr>fStr = ''Start string  proc by 1, proc by 2,'', fVal = 44\<rparr>])"
    by (simp add: run_defs record_call_def)
  from step_argument_has_value [OF h] h show ?thesis by simp
qed

subsection \<open>\<^verbatim>\<open>Payload_PipeTest\<close>\<close>

text \<open>
  \<^verbatim>\<open>Payload_Proc_2\<close>, given a payload, takes its success branch exactly when the
  first number that its generator returns is odd.
\<close>

lemma Payload_Proc_2_success_iff:
  "has_value (fst (Payload_Proc_2 (from_value p) w)) \<longleftrightarrow>
     mt19937 w (random_device w 0) 0 mod 2 \<noteq> 0"
  by (simp add: Payload_Proc_2_def from_value_def unexpected_def has_value_def print_def
      next_seed_def Let_def)

text \<open>
  C9. \<^verbatim>\<open>Payload_Proc_2\<close> returns its payload when the first number of its generator
  is odd. Then the pipe of \<^verbatim>\<open>Payload_PipeTest\<close> returns a success with the counter
  47 and the text of the start followed by the three suffixes in the order of the
  pipe.
\<close>

theorem pipe_test_success:
  "mt19937 w (random_device w 0) 0 mod 2 \<noteq> 0 \<Longrightarrow>
     map_option fst (Payload_PipeTest_res w) =
       Some (from_value \<lparr>fStr = ''Start string  proc by 1, proc by 2, proc by 3,'', fVal = 47\<rparr>)"
  by (simp add: example_defs)

theorem pipe_test_success_witness:
  "mt19937 (world_of 1) (random_device (world_of 1) 0) 0 mod 2 \<noteq> 0 \<and>
   map_option fst (Payload_PipeTest_res (world_of 1)) =
       Some (from_value \<lparr>fStr = ''Start string  proc by 1, proc by 2, proc by 3,'', fVal = 47\<rparr>)"
proof -
  have h: "mt19937 (world_of 1) (random_device (world_of 1) 0) 0 mod 2 \<noteq> 0"
    by (simp add: world_of_def)
  from h pipe_test_success [OF h] show ?thesis by simp
qed

lemma Payload_step_errors:
  assumes "f \<in> set Payload_steps" and "f v w = (Inl e, w')"
  shows "e = kOverflow \<or> e = kUnderflow"
  using assms
  by (auto simp: Payload_steps_def on_value_def from_value_def unexpected_def
      Payload_Proc_1_def Payload_Proc_2_def Payload_Proc_3_def Let_def
      split: if_splits prod.splits)

lemma v3_chain_errors:
  assumes "\<And>f v w e w'. f \<in> set fs \<Longrightarrow> f v w = (Inl e, w') \<Longrightarrow> P e"
    and "v3_chain (Inr v0) fs u = Some (Inl e, u')"
  shows "P e"
  using assms
proof (induction fs arbitrary: v0 u)
  case Nil
  then show ?case by simp
next
  case (Cons f fs)
  obtain r u1 where f: "f v0 u = (r, u1)" by (cases "f v0 u")
  with Cons.prems(2) have c: "v3_chain r fs u1 = Some (Inl e, u')"
    by (simp add: v3_pipe_value)
  show ?case
  proof (cases r)
    case (Inl e1)
    with c have "e1 = e" by (simp add: v3_chain_error)
    with Inl f Cons.prems(1) [of f v0 u e u1] show ?thesis by simp
  next
    case (Inr v1)
    have "\<And>g v w e w'. g \<in> set fs \<Longrightarrow> g v w = (Inl e, w') \<Longrightarrow> P e"
      using Cons.prems(1) by (meson list.set_intros(2))
    moreover from c Inr have "v3_chain (Inr v1) fs u1 = Some (Inl e, u')" by simp
    ultimately show ?thesis by (rule Cons.IH)
  qed
qed

lemma Payload_PipeTest_cout:
  "Payload_PipeTest w = Some w2 \<Longrightarrow>
     \<exists>xs. cout w2 = cout w @ xs \<and>
       Str ''Error: OpErrorType::kInvalidInput\<newline>'' \<notin> set xs \<and>
       Str ''That's really an unexpected error ...\<newline>'' \<notin> set xs"
  by (auto simp: Payload_PipeTest_def error_switch_def kInvalidInput_def kOverflow_def
      kUnderflow_def example_defs Let_def split: if_splits)

text \<open>
  C10. Started on a success, the pipe of \<^verbatim>\<open>Payload_PipeTest\<close> and every chain of
  its first steps only fail with \<^verbatim>\<open>kOverflow\<close> or \<^verbatim>\<open>kUnderflow\<close>, never with
  \<^verbatim>\<open>kInvalidInput\<close>; and \<^verbatim>\<open>Payload_PipeTest\<close> never prints the message of the
  case \<^verbatim>\<open>kInvalidInput\<close> nor the one of the default case of its switch.
\<close>

theorem pipe_test_errors:
  "(v3_chain (from_value p) (take n Payload_steps) w = Some (Inl e, w') \<longrightarrow>
      (e = kOverflow \<or> e = kUnderflow) \<and> e \<noteq> kInvalidInput) \<and>
   (Payload_PipeTest u = Some u' \<longrightarrow>
      (\<exists>xs. cout u' = cout u @ xs \<and>
         Str ''Error: OpErrorType::kInvalidInput\<newline>'' \<notin> set xs \<and>
         Str ''That's really an unexpected error ...\<newline>'' \<notin> set xs))"
proof (intro conjI impI)
  assume a: "v3_chain (from_value p) (take n Payload_steps) w = Some (Inl e, w')"
  have "\<And>f v w e w'. f \<in> set (take n Payload_steps) \<Longrightarrow> f v w = (Inl e, w')
          \<Longrightarrow> e = kOverflow \<or> e = kUnderflow"
    using Payload_step_errors set_take_subset by fast
  moreover from a have "v3_chain (Inr p) (take n Payload_steps) w = Some (Inl e, w')"
    by (simp add: from_value_def)
  ultimately show "e = kOverflow \<or> e = kUnderflow"
    by (rule v3_chain_errors)
  then show "e \<noteq> kInvalidInput"
    by (auto simp: kInvalidInput_def kOverflow_def kUnderflow_def)
next
  assume "Payload_PipeTest u = Some u'"
  then show "\<exists>xs. cout u' = cout u @ xs \<and>
         Str ''Error: OpErrorType::kInvalidInput\<newline>'' \<notin> set xs \<and>
         Str ''That's really an unexpected error ...\<newline>'' \<notin> set xs"
    by (rule Payload_PipeTest_cout)
qed

theorem pipe_test_errors_witness:
  "map_option fst (v3_chain (from_value start_payload) (take 2 Payload_steps) (world_of 2))
     = Some (Inl kOverflow) \<and>
   kOverflow \<noteq> kInvalidInput \<and>
   map_option cout (Payload_PipeTest (world_of 0)) =
     Some [Str ''I'm in Payload_Proc_1, s = '', Str ''Start string  proc by 1,'', Str ''\<newline>'',
           Str ''I'm in Payload_Proc_2, s = '', Str ''Start string  proc by 1, proc by 2,'',
           Str ''\<newline>'', Str ''Error: OpErrorType::kUnderflow\<newline>'']"
proof -
  obtain w' where h: "v3_chain (from_value start_payload) (take 2 Payload_steps) (world_of 2)
      = Some (Inl kOverflow, w')"
    by (simp add: run_defs numeral_2_eq_2)
  obtain w2 where k: "Payload_PipeTest (world_of 0) = Some w2"
    by (simp add: Payload_PipeTest_def run_defs)
  have "map_option cout (Payload_PipeTest (world_of 0)) =
     Some [Str ''I'm in Payload_Proc_1, s = '', Str ''Start string  proc by 1,'', Str ''\<newline>'',
           Str ''I'm in Payload_Proc_2, s = '', Str ''Start string  proc by 1, proc by 2,'',
           Str ''\<newline>'', Str ''Error: OpErrorType::kUnderflow\<newline>'']"
    by (simp add: Payload_PipeTest_def error_switch_def run_defs)
  with h k pipe_test_errors [of start_payload 2 "world_of 2" kOverflow w' "world_of 0" w2]
  show ?thesis by simp
qed

end
